theory Spec2Isabelle
  imports Complex_Main "HOL-Library.Word"
begin

section \<open>JavaScript strings\<close>

text \<open>
  A JavaScript string is a sequence of UTF-16 code units; \<open>length\<close>, \<open>trim\<close> and a
  regular expression without the \<open>u\<close> flag all work on code units.  The literals of
  \<open>App.js\<close> are ASCII, so \<open>js\<close> embeds a HOL string unit by unit.
\<close>

type_synonym code_unit = "16 word"
type_synonym jsstring = "code_unit list"

definition js :: "string \<Rightarrow> jsstring" where
  "js s = map (\<lambda>c. of_char c) s"

text \<open>
  The code units that ECMAScript calls WhiteSpace or LineTerminator.  Both
  \<open>String.prototype.trim\<close> and the class \<open>\s\<close> of a regular expression use exactly
  this set: TAB, LF, VT, FF, CR, SP, NBSP, U+1680, U+2000 to U+200A, U+2028, U+2029,
  U+202F, U+205F, U+3000 and U+FEFF.
\<close>

definition is_js_space :: "code_unit \<Rightarrow> bool" where
  "is_js_space c =
     (c = 0x09 \<or> c = 0x0A \<or> c = 0x0B \<or> c = 0x0C \<or> c = 0x0D \<or> c = 0x20 \<or> c = 0xA0
      \<or> c = 0x1680 \<or> (0x2000 \<le> c \<and> c \<le> 0x200A) \<or> c = 0x2028 \<or> c = 0x2029
      \<or> c = 0x202F \<or> c = 0x205F \<or> c = 0x3000 \<or> c = 0xFEFF)"

text \<open>\<open>s.trim()\<close>: the white space at both ends is removed.\<close>

definition trim :: "jsstring \<Rightarrow> jsstring" where
  "trim s = rev (dropWhile is_js_space (rev (dropWhile is_js_space s)))"

section \<open>The regular expression of the email check\<close>

text \<open>
  The source tests the trimmed email with \<^verbatim>\<open>/^[^\s@]+@[^\s@]+\.[^\s@]+$/\<close>.  Between the
  two anchors the literal is a sequence of items, each a class of code units that is
  matched once or, under \<open>+\<close>, one or more times.  \<open>rx_match\<close> is the backtracking
  matcher for such a sequence, anchored at both ends: a \<open>+\<close> item first tries to take
  one more unit (greedy) and then falls back to the rest of the pattern; the end of the
  pattern accepts only the end of the input (\<open>$\<close> without the \<open>m\<close> flag).
\<close>

datatype rx_item = Single "code_unit \<Rightarrow> bool" | OneOrMore "code_unit \<Rightarrow> bool"

fun rx_match :: "rx_item list \<Rightarrow> jsstring \<Rightarrow> bool" where
  "rx_match [] s = (s = [])"
| "rx_match (Single p # r) [] = False"
| "rx_match (Single p # r) (c # s) = (p c \<and> rx_match r s)"
| "rx_match (OneOrMore p # r) [] = False"
| "rx_match (OneOrMore p # r) (c # s) = (p c \<and> (rx_match (OneOrMore p # r) s \<or> rx_match r s))"

text \<open>The classes \<^verbatim>\<open>[^\s@]\<close>, \<^verbatim>\<open>@\<close> and \<^verbatim>\<open>\.\<close>.\<close>

definition not_space_at :: "code_unit \<Rightarrow> bool" where
  "not_space_at c = (\<not> is_js_space c \<and> c \<noteq> 0x40)"

definition is_at :: "code_unit \<Rightarrow> bool" where
  "is_at c = (c = 0x40)"

definition is_dot :: "code_unit \<Rightarrow> bool" where
  "is_dot c = (c = 0x2E)"

definition email_pattern :: "rx_item list" where
  "email_pattern =
     [OneOrMore not_space_at, Single is_at, OneOrMore not_space_at, Single is_dot,
      OneOrMore not_space_at]"

text \<open>\<open>re.test(s)\<close> for a pattern anchored by \<open>^\<close> and \<open>$\<close>, with no flags.\<close>

definition regex_test :: "rx_item list \<Rightarrow> jsstring \<Rightarrow> bool" where
  "regex_test r s = rx_match r s"

section \<open>The contact form\<close>

text \<open>
  The form has the three fields \<open>name\<close>, \<open>email\<close> and \<open>message\<close>; the objects
  \<open>contactValues\<close> and \<open>contactTouched\<close> have exactly these keys, so each is a function
  on \<open>field\<close>, and the computed-key update \<^verbatim>\<open>{...prev, [name]: value}\<close> is a function
  update.  The \<open>errors\<close> object starts empty and receives a property per failing field:
  it is an association list in insertion order, as \<open>Object.keys\<close> reports it.
\<close>

datatype field = Name | Email | Message

type_synonym js_errors = "(field \<times> string) list"

fun obj_set :: "field \<Rightarrow> string \<Rightarrow> js_errors \<Rightarrow> js_errors" where
  "obj_set k v [] = [(k, v)]"
| "obj_set k v ((k', v') # ps) =
     (if k' = k then (k, v) # ps else (k', v') # obj_set k v ps)"

definition obj_get :: "js_errors \<Rightarrow> field \<Rightarrow> string option" where
  "obj_get errors k = map_of errors k"

definition obj_keys :: "js_errors \<Rightarrow> field list" where
  "obj_keys errors = map fst errors"

definition validateContact :: "(field \<Rightarrow> jsstring) \<Rightarrow> js_errors" where
  "validateContact values =
     (let errors0 = [];
          name = trim (values Name);
          email = trim (values Email);
          message = trim (values Message);
          errors1 = (if name = [] then obj_set Name ''Please enter your name.'' errors0
                     else errors0);
          errors2 = (if email = [] then obj_set Email ''Please enter your email.'' errors1
                     else if \<not> regex_test email_pattern email
                       then obj_set Email ''Please enter a valid email address.'' errors1
                     else errors1);
          errors3 = (if message = [] then obj_set Message ''Please write a message.'' errors2
                     else if length message < 20
                       then obj_set Message ''Please write at least 20 characters.'' errors2
                     else errors2)
      in errors3)"

text \<open>\<open>isContactValid = Object.keys(contactErrors).length === 0\<close>\<close>

definition isContactValid :: "js_errors \<Rightarrow> bool" where
  "isContactValid errors = (length (obj_keys errors) = 0)"

text \<open>
  The three pieces of state of the form, and the handlers of \<open>App\<close>.  The setters of one
  handler are applied in the order of the calls, so a later \<open>setContactTouched\<close>
  replaces an earlier one.  \<open>isContactValid\<close> is the value of the current render, that
  is, of the current \<open>contactValues\<close>.
\<close>

record contact_session =
  contactValues :: "field \<Rightarrow> jsstring"
  contactTouched :: "field \<Rightarrow> bool"
  contactSubmitted :: bool

definition onContactChange :: "contact_session \<Rightarrow> field \<Rightarrow> jsstring \<Rightarrow> contact_session" where
  "onContactChange s name val =
     s\<lparr>contactSubmitted := False, contactValues := (contactValues s)(name := val)\<rparr>"

definition onContactBlur :: "contact_session \<Rightarrow> field \<Rightarrow> contact_session" where
  "onContactBlur s name = s\<lparr>contactTouched := (contactTouched s)(name := True)\<rparr>"

definition onContactSubmit :: "contact_session \<Rightarrow> contact_session" where
  "onContactSubmit s =
     (let s1 = s\<lparr>contactTouched := (\<lambda>_. True)\<rparr>
      in if isContactValid (validateContact (contactValues s))
         then s1\<lparr>contactSubmitted := True,
                 contactValues := (\<lambda>_. []),
                 contactTouched := (\<lambda>_. False)\<rparr>
         else s1)"

definition onContactReset :: "contact_session \<Rightarrow> contact_session" where
  "onContactReset s =
     s\<lparr>contactSubmitted := False, contactValues := (\<lambda>_. []), contactTouched := (\<lambda>_. False)\<rparr>"

text \<open>
  The spec words the email pattern as "one or more non-space-non-@ characters, @, one or
  more non-space-non-@ characters, a dot, one or more non-space characters".  This second
  pattern follows those words, for comparison with \<open>email_pattern\<close> of the source.
\<close>

definition non_space :: "code_unit \<Rightarrow> bool" where
  "non_space c = (\<not> is_js_space c)"

definition spec_email_pattern :: "rx_item list" where
  "spec_email_pattern =
     [OneOrMore not_space_at, Single is_at, OneOrMore not_space_at, Single is_dot,
      OneOrMore non_space]"

text \<open>The two inputs of the validation round trip of the spec (section 8, item 6).\<close>

definition sample_valid :: "field \<Rightarrow> jsstring" where
  "sample_valid = (\<lambda>_. [])(Name := js ''Ann'', Email := js ''a@b.com'',
     Message := js ''xxxxxxxxxxxxxxxxxxxx'')"

definition sample_invalid :: "field \<Rightarrow> jsstring" where
  "sample_invalid = (\<lambda>_. [])(Name := js '''', Email := js ''bad'', Message := js ''short'')"

section \<open>The scroll spy\<close>

text \<open>
  Section ids are strings that the hook only compares and tests for truthiness (the empty
  string is falsy).  An element of the document carries its \<open>id\<close> and its \<open>offsetTop\<close>; the
  document lists its elements in tree order.  Numbers are JavaScript doubles that the
  browser reports (finite, never NaN); a double is the real number it denotes, so the
  comparisons of the source are comparisons of reals.  The comparator of the sort only
  passes on the sign of a difference of two doubles, and that sign is the sign of the exact
  difference.  The sum \<open>scrollY + 96\<close> is rounded as IEEE 754 prescribes, see
  \<open>double_round\<close>.
\<close>

record element =
  elem_id :: string
  offsetTop :: real

type_synonym document = "element list"

text \<open>\<open>document.getElementById(id)\<close>: the first element with that id; no element has the empty id.\<close>

definition getElementById :: "document \<Rightarrow> string \<Rightarrow> element option" where
  "getElementById doc i = (if i = [] then None else find (\<lambda>el. elem_id el = i) doc)"

text \<open>An \<open>IntersectionObserverEntry\<close>, with \<open>rect_top\<close> for \<open>boundingClientRect.top\<close>.\<close>

record 'e entry =
  target :: 'e
  isIntersecting :: bool
  intersectionRatio :: real
  rect_top :: real

text \<open>The objects \<^verbatim>\<open>{ id, ratio, top }\<close> that the observer callback sorts.\<close>

record visible =
  v_id :: string
  v_ratio :: real
  v_top :: real

definition to_visible :: "element entry \<Rightarrow> visible" where
  "to_visible e =
     \<lparr>v_id = elem_id (target e), v_ratio = intersectionRatio e, v_top = rect_top e\<rparr>"

text \<open>The comparator of the source: higher ratio first, then nearer to the top.\<close>

definition compare_visible :: "visible \<Rightarrow> visible \<Rightarrow> real" where
  "compare_visible a b =
     (if v_ratio b \<noteq> v_ratio a then v_ratio b - v_ratio a else \<bar>v_top a\<bar> - \<bar>v_top b\<bar>)"

text \<open>
  \<open>Array.prototype.sort\<close> with a comparator is a stable sort: \<open>a\<close> stays before \<open>b\<close> unless
  the comparator is positive.  It is modelled as a stable insertion sort.
\<close>

fun js_insert :: "('a \<Rightarrow> 'a \<Rightarrow> real) \<Rightarrow> 'a \<Rightarrow> 'a list \<Rightarrow> 'a list" where
  "js_insert cmp x [] = [x]"
| "js_insert cmp x (y # ys) = (if cmp x y \<le> 0 then x # y # ys else y # js_insert cmp x ys)"

definition js_sort :: "('a \<Rightarrow> 'a \<Rightarrow> real) \<Rightarrow> 'a list \<Rightarrow> 'a list" where
  "js_sort cmp xs = foldr (js_insert cmp) xs []"

definition visible_of :: "element entry list \<Rightarrow> visible list" where
  "visible_of entries = js_sort compare_visible (map to_visible (filter isIntersecting entries))"

text \<open>
  The handlers return the argument of the call of \<open>setActiveId\<close> they make, or \<open>None\<close>
  when they make none.  \<open>latest\<close> is \<open>latestActive.current\<close>.
\<close>

definition observer_callback :: "string \<Rightarrow> element entry list \<Rightarrow> string option" where
  "observer_callback latest entries =
     (case visible_of entries of
        [] \<Rightarrow> None
      | v # _ \<Rightarrow> if v_id v \<noteq> latest then Some (v_id v) else None)"

fun scroll_walk :: "document \<Rightarrow> real \<Rightarrow> string list \<Rightarrow> string \<Rightarrow> string" where
  "scroll_walk doc scrollPos [] current = current"
| "scroll_walk doc scrollPos (i # ids) current =
     (case getElementById doc i of
        None \<Rightarrow> scroll_walk doc scrollPos ids current
      | Some el \<Rightarrow>
          if offsetTop el \<le> scrollPos then scroll_walk doc scrollPos ids i
          else scroll_walk doc scrollPos ids current)"

text \<open>
  The sum of two doubles is the exact sum rounded to the nearest double, ties to the even
  significand.  A double has 53 significant bits; the spacing of the doubles around \<open>x\<close>
  is \<open>double_ulp x\<close>, with the least exponent \<open>-1022\<close> for the subnormal range.  Adding 96
  to a finite double never overflows, so the result is again a real.
\<close>

definition double_ulp :: "real \<Rightarrow> real" where
  "double_ulp x = 2 powr (of_int (max \<lfloor>log 2 \<bar>x\<bar>\<rfloor> (- 1022)) - 52)"

definition round_half_even :: "real \<Rightarrow> int" where
  "round_half_even r =
     (let f = \<lfloor>r\<rfloor>
      in if r - of_int f < 1/2 then f
         else if 1/2 < r - of_int f then f + 1
         else if even f then f else f + 1)"

definition double_round :: "real \<Rightarrow> real" where
  "double_round x =
     (if x = 0 then 0 else of_int (round_half_even (x / double_ulp x)) * double_ulp x)"

text \<open>
  The fallback handler runs only when \<open>ids\<close> is not empty, so the list is passed as its
  first element \<open>id0\<close> and the rest.
\<close>

definition scroll_current :: "string \<Rightarrow> string list \<Rightarrow> document \<Rightarrow> real \<Rightarrow> string" where
  "scroll_current id0 rest doc scrollY =
     (let headerOffset = 96;
          scrollPos = double_round (scrollY + headerOffset)
      in scroll_walk doc scrollPos (id0 # rest) id0)"

definition onScroll :: "string \<Rightarrow> string list \<Rightarrow> document \<Rightarrow> real \<Rightarrow> string \<Rightarrow> string option" where
  "onScroll id0 rest doc scrollY latest =
     (let current = scroll_current id0 rest doc scrollY
      in if current \<noteq> latest then Some current else None)"

text \<open>
  The state of the hook: the React state \<open>activeId\<close>, the ref \<open>latestActive\<close>, and what
  the second effect installed.  \<open>setActiveId\<close> changes the state only; the ref follows
  later, when the first effect (\<open>latestActive.current = activeId\<close>) runs, and a handler
  that runs in between reads the old ref.
\<close>

datatype listener = NoListener | Observer "element list" | ScrollListener string "string list"

record spy_state =
  activeId :: string
  latestActive :: string
  listener :: listener

definition setActiveId :: "spy_state \<Rightarrow> string option \<Rightarrow> spy_state" where
  "setActiveId s upd =
     (case upd of None \<Rightarrow> s | Some i \<Rightarrow> s\<lparr>activeId := i\<rparr>)"

text \<open>\<^verbatim>\<open>useState(sectionIds[0] || "home")\<close>: a missing first id and the empty string are falsy.\<close>

definition initial_activeId :: "string list \<Rightarrow> string" where
  "initial_activeId sectionIds =
     (case sectionIds of [] \<Rightarrow> ''home'' | i # _ \<Rightarrow> if i = [] then ''home'' else i)"

text \<open>
  The first render and its effects.  \<open>hasIO\<close> is \<^verbatim>\<open>"IntersectionObserver" in window\<close>;
  \<open>doc\<close> and \<open>scrollY\<close> are the document and the scroll position at that time.  The
  first effect has set the ref to the initial \<open>activeId\<close> when the second effect runs; on
  the fallback path the second effect calls \<open>onScroll()\<close> once.  The dependencies of the
  second effect are taken to stay the same, so it runs once.
\<close>

definition useScrollSpy_mount :: "string list \<Rightarrow> bool \<Rightarrow> document \<Rightarrow> real \<Rightarrow> spy_state" where
  "useScrollSpy_mount sectionIds hasIO doc scrollY =
     (let s0 = \<lparr>activeId = initial_activeId sectionIds,
                latestActive = initial_activeId sectionIds,
                listener = NoListener\<rparr>
      in case filter (\<lambda>i. i \<noteq> []) sectionIds of
           [] \<Rightarrow> s0
         | id0 # rest \<Rightarrow>
             if hasIO
             then s0\<lparr>listener := Observer (List.map_filter (getElementById doc) (id0 # rest))\<rparr>
             else setActiveId (s0\<lparr>listener := ScrollListener id0 rest\<rparr>)
                    (onScroll id0 rest doc scrollY (latestActive s0)))"

text \<open>
  The events after the mount: the observer delivers a batch of entries, the window
  scrolls (the event carries the document and \<open>scrollY\<close> that the handler reads), or the
  first effect runs and copies \<open>activeId\<close> into the ref.  The three may come in any order.
  An intersection or scroll event with no matching listener reaches no handler.
\<close>

datatype spy_event = Intersection "element entry list" | Scroll document real | SyncRef

fun spy_step :: "spy_state \<Rightarrow> spy_event \<Rightarrow> spy_state" where
  "spy_step s (Intersection entries) =
     (case listener s of
        Observer obs \<Rightarrow> setActiveId s (observer_callback (latestActive s) entries)
      | _ \<Rightarrow> s)"
| "spy_step s (Scroll doc scrollY) =
     (case listener s of
        ScrollListener id0 rest \<Rightarrow> setActiveId s (onScroll id0 rest doc scrollY (latestActive s))
      | _ \<Rightarrow> s)"
| "spy_step s SyncRef = s\<lparr>latestActive := activeId s\<rparr>"

definition spy_run :: "spy_state \<Rightarrow> spy_event list \<Rightarrow> spy_state" where
  "spy_run s evs = foldl spy_step s evs"

text \<open>
  What the browser guarantees of a delivery: an observer reports entries only for the
  elements it observes.
\<close>

fun delivered_by :: "listener \<Rightarrow> spy_event \<Rightarrow> bool" where
  "delivered_by (Observer obs) (Intersection entries) = list_all (\<lambda>e. target e \<in> set obs) entries"
| "delivered_by _ _ = True"

text \<open>
  The spec's words for the fallback path: a section qualifies when it has an element whose
  top offset is at most the given position.
\<close>

definition qualifies :: "document \<Rightarrow> real \<Rightarrow> string \<Rightarrow> bool" where
  "qualifies doc pos i =
     (case getElementById doc i of None \<Rightarrow> False | Some el \<Rightarrow> offsetTop el \<le> pos)"

section \<open>The reveal controller\<close>

text \<open>
  The elements marked \<open>data-reveal\<close> are opaque handles.  \<open>revealed\<close> is the set of
  elements that carry the class \<open>is-revealed\<close>; \<open>observing\<close> is the set of targets of the
  live \<open>IntersectionObserver\<close>, or \<open>None\<close> when the effect installed none or its cleanup
  disconnected it.
\<close>

record 'e reveal_state =
  revealed :: "'e set"
  observing :: "'e set option"

definition reveal_entry :: "'e entry \<Rightarrow> 'e reveal_state \<Rightarrow> 'e reveal_state" where
  "reveal_entry entry s =
     (if isIntersecting entry
      then s\<lparr>revealed := insert (target entry) (revealed s),
             observing := map_option (\<lambda>obs. obs - {target entry}) (observing s)\<rparr>
      else s)"

definition reveal_callback :: "'e entry list \<Rightarrow> 'e reveal_state \<Rightarrow> 'e reveal_state" where
  "reveal_callback entries s = fold reveal_entry entries s"

definition reveal_cleanup :: "'e reveal_state \<Rightarrow> 'e reveal_state" where
  "reveal_cleanup s = s\<lparr>observing := None\<rparr>"

definition useRevealOnScroll_effect ::
    "bool \<Rightarrow> bool \<Rightarrow> 'e list \<Rightarrow> 'e reveal_state \<Rightarrow> 'e reveal_state" where
  "useRevealOnScroll_effect reducedMotion hasIO elements s =
     (if elements = [] then s
      else if reducedMotion then s\<lparr>revealed := revealed s \<union> set elements\<rparr>
      else if \<not> hasIO then s\<lparr>revealed := revealed s \<union> set elements\<rparr>
      else s\<lparr>observing := Some (set elements)\<rparr>)"

text \<open>
  The events of the controller: the effect runs (at mount and whenever \<open>reducedMotion\<close>
  changes, after the cleanup of the previous run) on the elements that
  \<open>querySelectorAll\<close> returns, or the live observer delivers entries.
\<close>

datatype 'e reveal_event = Run bool bool "'e list" | Intersect "'e entry list"

fun reveal_step :: "'e reveal_state \<Rightarrow> 'e reveal_event \<Rightarrow> 'e reveal_state" where
  "reveal_step s (Run reducedMotion hasIO elements) =
     useRevealOnScroll_effect reducedMotion hasIO elements (reveal_cleanup s)"
| "reveal_step s (Intersect entries) =
     (case observing s of None \<Rightarrow> s | Some obs \<Rightarrow> reveal_callback entries s)"

definition reveal_run :: "'e reveal_state \<Rightarrow> 'e reveal_event list \<Rightarrow> 'e reveal_state" where
  "reveal_run s evs = foldl reveal_step s evs"

definition observed :: "'e reveal_state \<Rightarrow> 'e set" where
  "observed s = (case observing s of None \<Rightarrow> {} | Some obs \<Rightarrow> obs)"

text \<open>The number of steps of a run at which \<open>x\<close> goes from hidden to revealed.\<close>

fun reveal_transitions :: "'e \<Rightarrow> 'e reveal_state \<Rightarrow> 'e reveal_event list \<Rightarrow> nat" where
  "reveal_transitions x s [] = 0"
| "reveal_transitions x s (ev # evs) =
     (if x \<notin> revealed s \<and> x \<in> revealed (reveal_step s ev) then 1 else 0)
     + reveal_transitions x (reveal_step s ev) evs"

text \<open>The ids that a listener can pass to \<open>setActiveId\<close>.\<close>

definition listener_ids :: "listener \<Rightarrow> string set" where
  "listener_ids l =
     (case l of NoListener \<Rightarrow> {} | Observer obs \<Rightarrow> elem_id ` set obs
      | ScrollListener id0 rest \<Rightarrow> set (id0 # rest))"

text \<open>
  Sample data: the section ids of \<open>App\<close> (\<open>SECTIONS.map((s) => s.id)\<close>), a document
  that holds the four sections, two deliveries of the observer, a document for a list
  whose first id is empty, and a run of the reveal controller.
\<close>

definition SECTION_IDS :: "string list" where
  "SECTION_IDS = [''home'', ''about'', ''work'', ''contact'']"

definition sample_doc :: document where
  "sample_doc =
     [\<lparr>elem_id = ''home'', offsetTop = 0\<rparr>, \<lparr>elem_id = ''about'', offsetTop = 600\<rparr>,
      \<lparr>elem_id = ''work'', offsetTop = 1400\<rparr>, \<lparr>elem_id = ''contact'', offsetTop = 2300\<rparr>]"

definition sample_entries :: "element entry list" where
  "sample_entries =
     [\<lparr>target = \<lparr>elem_id = ''home'', offsetTop = 0\<rparr>, isIntersecting = False,
        intersectionRatio = 0, rect_top = -700\<rparr>,
      \<lparr>target = \<lparr>elem_id = ''about'', offsetTop = 600\<rparr>, isIntersecting = True,
        intersectionRatio = 1/2, rect_top = -100\<rparr>,
      \<lparr>target = \<lparr>elem_id = ''work'', offsetTop = 1400\<rparr>, isIntersecting = True,
        intersectionRatio = 1/2, rect_top = 40\<rparr>,
      \<lparr>target = \<lparr>elem_id = ''contact'', offsetTop = 2300\<rparr>, isIntersecting = True,
        intersectionRatio = 1/5, rect_top = 10\<rparr>]"

definition home_entries :: "element entry list" where
  "home_entries =
     [\<lparr>target = \<lparr>elem_id = ''home'', offsetTop = 0\<rparr>, isIntersecting = True,
        intersectionRatio = 1/2, rect_top = 0\<rparr>]"

definition work_entries :: "element entry list" where
  "work_entries =
     [\<lparr>target = \<lparr>elem_id = ''work'', offsetTop = 1400\<rparr>, isIntersecting = True,
        intersectionRatio = 1/2, rect_top = 40\<rparr>]"

definition blank_doc :: document where
  "blank_doc = [\<lparr>elem_id = ''about'', offsetTop = 500\<rparr>]"

definition reveal_start :: "nat reveal_state" where
  "reveal_start = \<lparr>revealed = {}, observing = None\<rparr>"

definition reveal_sample_run :: "nat reveal_event list" where
  "reveal_sample_run =
     [Run False True [1, 2, 3],
      Intersect [\<lparr>target = 1, isIntersecting = True, intersectionRatio = 1/5, rect_top = 300\<rparr>],
      Intersect [\<lparr>target = 1, isIntersecting = False, intersectionRatio = 0, rect_top = -900\<rparr>],
      Run False True [1, 2, 3],
      Intersect [\<lparr>target = 1, isIntersecting = True, intersectionRatio = 1/5, rect_top = 300\<rparr>]]"

section \<open>Properties of the matcher and of \<open>trim\<close>\<close>

lemma rx_match_Single_iff:
  "rx_match (Single p # r) s \<longleftrightarrow> (\<exists>c t. s = c # t \<and> p c \<and> rx_match r t)"
  by (cases s) auto

lemma rx_match_OneOrMore_iff:
  "rx_match (OneOrMore p # r) s \<longleftrightarrow>
     (\<exists>u t. s = u @ t \<and> u \<noteq> [] \<and> (\<forall>c\<in>set u. p c) \<and> rx_match r t)"
proof (induction s)
  case Nil
  show ?case by simp
next
  case (Cons c s)
  show ?case
  proof
    assume "rx_match (OneOrMore p # r) (c # s)"
    then have pc: "p c" and alt: "rx_match (OneOrMore p # r) s \<or> rx_match r s"
      by simp_all
    from alt show "\<exists>u t. c # s = u @ t \<and> u \<noteq> [] \<and> (\<forall>c\<in>set u. p c) \<and> rx_match r t"
    proof
      assume "rx_match (OneOrMore p # r) s"
      with Cons.IH obtain u t where "s = u @ t" "\<forall>c\<in>set u. p c" "rx_match r t"
        by blast
      with pc have "c # s = (c # u) @ t \<and> c # u \<noteq> [] \<and> (\<forall>c\<in>set (c # u). p c) \<and> rx_match r t"
        by simp
      then show ?thesis by blast
    next
      assume "rx_match r s"
      with pc have "c # s = [c] @ s \<and> [c] \<noteq> [] \<and> (\<forall>c\<in>set [c]. p c) \<and> rx_match r s"
        by simp
      then show ?thesis by blast
    qed
  next
    assume "\<exists>u t. c # s = u @ t \<and> u \<noteq> [] \<and> (\<forall>c\<in>set u. p c) \<and> rx_match r t"
    then obtain u t where ut: "c # s = u @ t" "u \<noteq> []" "\<forall>c\<in>set u. p c" "rx_match r t"
      by blast
    then obtain u' where u: "u = c # u'" and s: "s = u' @ t"
      by (cases u) auto
    from u ut(3) have pc: "p c" by simp
    show "rx_match (OneOrMore p # r) (c # s)"
    proof (cases "u' = []")
      case True
      with s ut(4) pc show ?thesis by simp
    next
      case False
      with s u ut(3,4) have "\<exists>u t. s = u @ t \<and> u \<noteq> [] \<and> (\<forall>c\<in>set u. p c) \<and> rx_match r t"
        by auto
      with Cons.IH pc show ?thesis by simp
    qed
  qed
qed

lemma email_pattern_shape:
  "regex_test email_pattern s \<longleftrightarrow>
     (\<exists>u v w. s = u @ [0x40] @ v @ [0x2E] @ w \<and> u \<noteq> [] \<and> v \<noteq> [] \<and> w \<noteq> []
        \<and> (\<forall>c\<in>set u. not_space_at c) \<and> (\<forall>c\<in>set v. not_space_at c)
        \<and> (\<forall>c\<in>set w. not_space_at c))"
  unfolding regex_test_def email_pattern_def
  apply (simp only: rx_match_OneOrMore_iff rx_match_Single_iff rx_match.simps is_at_def is_dot_def)
  apply (rule iffI)
   apply (elim exE conjE)
   apply simp
  apply blast
  apply (elim exE conjE)
  apply simp
  apply blast
  done

lemma rev_dropWhile_split:
  "rev (dropWhile P (rev xs)) @ rev (takeWhile P (rev xs)) = xs"
proof -
  have "rev (takeWhile P (rev xs) @ dropWhile P (rev xs)) = rev (rev xs)"
    by (simp only: takeWhile_dropWhile_id)
  then show ?thesis
    by (simp only: rev_append rev_rev_ident)
qed

lemma trim_split:
  "dropWhile is_js_space s = trim s @ rev (takeWhile is_js_space (rev (dropWhile is_js_space s)))"
  unfolding trim_def by (rule rev_dropWhile_split [symmetric])

lemma trim_decomp:
  "\<exists>a b. s = a @ trim s @ b \<and> (\<forall>c\<in>set a. is_js_space c) \<and> (\<forall>c\<in>set b. is_js_space c)"
proof -
  let ?a = "takeWhile is_js_space s"
  let ?b = "rev (takeWhile is_js_space (rev (dropWhile is_js_space s)))"
  have "s = ?a @ dropWhile is_js_space s" by simp
  with trim_split [of s] have "s = ?a @ trim s @ ?b" by simp
  moreover have "\<forall>c\<in>set ?a. is_js_space c"
    by (auto dest: set_takeWhileD)
  moreover have "\<forall>c\<in>set ?b. is_js_space c"
    by (auto dest: set_takeWhileD)
  ultimately show ?thesis by blast
qed

lemma trim_ends:
  assumes "trim s \<noteq> []"
  shows "\<not> is_js_space (hd (trim s)) \<and> \<not> is_js_space (last (trim s))"
proof -
  let ?d = "dropWhile is_js_space s"
  let ?e = "dropWhile is_js_space (rev ?d)"
  from assms have e: "?e \<noteq> []" by (simp add: trim_def)
  then have "\<not> is_js_space (hd ?e)" by (rule hd_dropWhile)
  with e have l: "\<not> is_js_space (last (trim s))" by (simp add: trim_def last_rev)
  have d: "?d \<noteq> []"
  proof
    assume a: "?d = []"
    have "?e = []" unfolding a by simp
    with e show False by (rule notE)
  qed
  then have h: "\<not> is_js_space (hd ?d)" by (rule hd_dropWhile)
  from assms have "hd (trim s @ rev (takeWhile is_js_space (rev ?d))) = hd (trim s)"
    by simp
  with trim_split [of s] have "hd ?d = hd (trim s)" by simp
  with h l show ?thesis by simp
qed

lemma trim_samples:
  "trim (js ''Ann'') = js ''Ann''"
  "trim (js ''a@b.com'') = js ''a@b.com''"
  "trim (js ''xxxxxxxxxxxxxxxxxxxx'') = js ''xxxxxxxxxxxxxxxxxxxx''"
  "trim (js '''') = []"
  "trim (js ''bad'') = js ''bad''"
  "trim (js ''short'') = js ''short''"
  by (simp_all add: trim_def js_def is_js_space_def)

lemma regex_samples:
  "regex_test email_pattern (js ''a@b.com'')"
  "\<not> regex_test email_pattern (js ''bad'')"
  by (simp_all add: regex_test_def email_pattern_def not_space_at_def is_at_def is_dot_def
        js_def is_js_space_def)

lemma length_js: "length (js s) = length s"
  by (simp add: js_def)

lemma js_Nil_iff: "js s = [] \<longleftrightarrow> s = []"
  by (simp add: js_def)

lemma trim_js_abcd: "trim (js ''a@b.c@d'') = js ''a@b.c@d''"
  by (simp add: trim_def js_def is_js_space_def)

lemma validateContact_sample_valid: "validateContact sample_valid = []"
  by (simp add: validateContact_def sample_valid_def trim_samples regex_samples length_js
        js_Nil_iff)

lemma validateContact_sample_invalid: "validateContact sample_invalid \<noteq> []"
  by (simp add: validateContact_def sample_invalid_def trim_samples regex_samples length_js
        js_Nil_iff Let_def)

section \<open>The contact form validator\<close>

text \<open>
  Claim C1.  For every value of the three fields, \<open>validateContact\<close> trims each field
  and reports "Please enter your name." exactly when the trimmed name is empty, "Please
  write a message." exactly when the trimmed message is empty and otherwise "Please write
  at least 20 characters." exactly when the trimmed message has fewer than 20 code units.
  The object has one entry per failing field and no other, the form is valid exactly when
  the object is empty, and the fully empty input yields the three "empty" messages (the
  function is a total HOL function of its argument, with no state).
\<close>

theorem validateContact_name_message:
  "obj_get (validateContact values) Name =
     (if trim (values Name) = [] then Some ''Please enter your name.'' else None)
   \<and> obj_get (validateContact values) Message =
     (if trim (values Message) = [] then Some ''Please write a message.''
      else if length (trim (values Message)) < 20
        then Some ''Please write at least 20 characters.''
      else None)
   \<and> obj_keys (validateContact values) =
       (if trim (values Name) = [] then [Name] else [])
       @ (if trim (values Email) = [] \<or> \<not> regex_test email_pattern (trim (values Email))
          then [Email] else [])
       @ (if length (trim (values Message)) < 20 then [Message] else [])
   \<and> (isContactValid (validateContact values) \<longleftrightarrow> validateContact values = [])
   \<and> (validateContact values = [] \<longleftrightarrow>
        trim (values Name) \<noteq> [] \<and> trim (values Email) \<noteq> []
        \<and> regex_test email_pattern (trim (values Email))
        \<and> 20 \<le> length (trim (values Message)))
   \<and> validateContact (\<lambda>_. []) =
        [(Name, ''Please enter your name.''), (Email, ''Please enter your email.''),
         (Message, ''Please write a message.'')]"
proof (intro conjI)
  show "obj_get (validateContact values) Name =
     (if trim (values Name) = [] then Some ''Please enter your name.'' else None)"
    by (simp add: validateContact_def obj_get_def Let_def)
  show "obj_get (validateContact values) Message =
     (if trim (values Message) = [] then Some ''Please write a message.''
      else if length (trim (values Message)) < 20
        then Some ''Please write at least 20 characters.''
      else None)"
    by (simp add: validateContact_def obj_get_def Let_def)
  show "obj_keys (validateContact values) =
       (if trim (values Name) = [] then [Name] else [])
       @ (if trim (values Email) = [] \<or> \<not> regex_test email_pattern (trim (values Email))
          then [Email] else [])
       @ (if length (trim (values Message)) < 20 then [Message] else [])"
    by (simp add: validateContact_def obj_keys_def Let_def)
  show "isContactValid (validateContact values) \<longleftrightarrow> validateContact values = []"
    by (simp add: isContactValid_def obj_keys_def)
  show "validateContact values = [] \<longleftrightarrow>
        trim (values Name) \<noteq> [] \<and> trim (values Email) \<noteq> []
        \<and> regex_test email_pattern (trim (values Email))
        \<and> 20 \<le> length (trim (values Message))"
    by (auto simp add: validateContact_def Let_def)
  show "validateContact (\<lambda>_. []) =
        [(Name, ''Please enter your name.''), (Email, ''Please enter your email.''),
         (Message, ''Please write a message.'')]"
    by (simp add: validateContact_def trim_def)
qed

theorem validateContact_name_message_witness:
  "obj_get (validateContact sample_invalid) Name = Some ''Please enter your name.''
   \<and> obj_get (validateContact sample_invalid) Message
       = Some ''Please write at least 20 characters.''
   \<and> obj_keys (validateContact sample_invalid) = [Name, Email, Message]
   \<and> \<not> isContactValid (validateContact sample_invalid)
   \<and> isContactValid (validateContact sample_valid)"
proof -
  have n: "trim (sample_invalid Name) = []"
    and e: "trim (sample_invalid Email) = js ''bad''"
    and m: "trim (sample_invalid Message) = js ''short''"
    by (simp_all add: sample_invalid_def trim_samples)
  have l: "length (js ''short'') < 20" "js ''short'' \<noteq> []" "js ''bad'' \<noteq> []"
    by (simp_all add: length_js js_Nil_iff)
  from validateContact_name_message [of sample_invalid]
    validateContact_name_message [of sample_valid]
  show ?thesis
    by (simp add: n e m l regex_samples validateContact_sample_valid)
qed

text \<open>
  Claim C2, as amended.  The email entry is "Please enter your email." exactly when the
  trimmed email is empty; otherwise it is "Please enter a valid email address." exactly
  when the trimmed email is not of the form \<open>u @ v . w\<close> with \<open>u\<close>, \<open>v\<close> and \<open>w\<close>
  non-empty and free of white space and of \<open>@\<close>: the last segment excludes \<open>@\<close> too.
\<close>

theorem validateContact_email:
  "obj_get (validateContact values) Email =
     (if trim (values Email) = [] then Some ''Please enter your email.''
      else if (\<exists>u v w. trim (values Email) = u @ [0x40] @ v @ [0x2E] @ w
                 \<and> u \<noteq> [] \<and> v \<noteq> [] \<and> w \<noteq> []
                 \<and> (\<forall>c\<in>set u. \<not> is_js_space c \<and> c \<noteq> 0x40)
                 \<and> (\<forall>c\<in>set v. \<not> is_js_space c \<and> c \<noteq> 0x40)
                 \<and> (\<forall>c\<in>set w. \<not> is_js_space c \<and> c \<noteq> 0x40))
        then None
      else Some ''Please enter a valid email address.'')"
proof -
  have "obj_get (validateContact values) Email =
     (if trim (values Email) = [] then Some ''Please enter your email.''
      else if regex_test email_pattern (trim (values Email)) then None
      else Some ''Please enter a valid email address.'')"
    by (simp add: validateContact_def obj_get_def Let_def)
  then show ?thesis
    by (simp only: email_pattern_shape not_space_at_def)
qed

theorem validateContact_email_witness:
  "obj_get (validateContact sample_valid) Email = None
   \<and> obj_get (validateContact sample_invalid) Email = Some ''Please enter a valid email address.''"
proof -
  have t: "trim (sample_valid Email) = js ''a@b.com''"
    by (simp add: sample_valid_def trim_samples)
  have A: "trim (sample_valid Email) \<noteq> []"
    unfolding t by (simp add: js_def)
  have B: "\<exists>u v w. trim (sample_valid Email) = u @ [0x40] @ v @ [0x2E] @ w
                 \<and> u \<noteq> [] \<and> v \<noteq> [] \<and> w \<noteq> []
                 \<and> (\<forall>c\<in>set u. \<not> is_js_space c \<and> c \<noteq> 0x40)
                 \<and> (\<forall>c\<in>set v. \<not> is_js_space c \<and> c \<noteq> 0x40)
                 \<and> (\<forall>c\<in>set w. \<not> is_js_space c \<and> c \<noteq> 0x40)"
    unfolding t
    by (rule exI [of _ "js ''a''"], rule exI [of _ "js ''b''"], rule exI [of _ "js ''com''"])
      (simp add: js_def is_js_space_def)
  from validateContact_email [of sample_valid] A B
  have 1: "obj_get (validateContact sample_valid) Email = None"
    by (simp only: if_True if_False)
  have t': "trim (sample_invalid Email) = js ''bad''"
    by (simp add: sample_invalid_def trim_samples)
  have A': "trim (sample_invalid Email) \<noteq> []"
    unfolding t' by (simp add: js_def)
  have B': "\<not> (\<exists>u v w. trim (sample_invalid Email) = u @ [0x40] @ v @ [0x2E] @ w
                 \<and> u \<noteq> [] \<and> v \<noteq> [] \<and> w \<noteq> []
                 \<and> (\<forall>c\<in>set u. \<not> is_js_space c \<and> c \<noteq> 0x40)
                 \<and> (\<forall>c\<in>set v. \<not> is_js_space c \<and> c \<noteq> 0x40)
                 \<and> (\<forall>c\<in>set w. \<not> is_js_space c \<and> c \<noteq> 0x40))"
    using regex_samples(2) unfolding t' email_pattern_shape not_space_at_def .
  from validateContact_email [of sample_invalid] A' B'
  have 2: "obj_get (validateContact sample_invalid) Email = Some ''Please enter a valid email address.''"
    by (simp only: if_True if_False)
  from 1 2 show ?thesis by simp
qed

text \<open>
  The claim as the spec words it lets the last segment contain \<open>@\<close>.  The address
  \<open>a@b.c@d\<close> matches that wording, and the source still rejects it.
\<close>

theorem validateContact_email_counterexample:
  "trim (js ''a@b.c@d'') \<noteq> []
   \<and> regex_test spec_email_pattern (trim (js ''a@b.c@d''))
   \<and> obj_get (validateContact ((\<lambda>_. [])(Email := js ''a@b.c@d''))) Email
       = Some ''Please enter a valid email address.''"
  by (simp add: trim_js_abcd validateContact_def obj_get_def regex_test_def
        spec_email_pattern_def email_pattern_def not_space_at_def non_space_def is_at_def
        is_dot_def js_def is_js_space_def trim_def)

section \<open>The contact form session\<close>

text \<open>
  Claim C3.  A submit attempt marks all three fields touched; if \<open>validateContact\<close> of
  the current values is empty it then sets \<open>submitted\<close>, clears every value to the empty
  string and every touched flag to false; otherwise the values and \<open>submitted\<close> are
  unchanged and every field is touched.  A field change sets \<open>submitted\<close> to false,
  replaces the value of that field only and leaves the touched flags alone.
\<close>

theorem contact_submit_flow:
  "onContactSubmit s =
     (if validateContact (contactValues s) = []
      then \<lparr>contactValues = (\<lambda>_. []), contactTouched = (\<lambda>_. False), contactSubmitted = True\<rparr>
      else s\<lparr>contactTouched := (\<lambda>_. True)\<rparr>)
   \<and> contactSubmitted (onContactChange s' f v) = False
   \<and> contactValues (onContactChange s' f v) = (contactValues s')(f := v)
   \<and> contactTouched (onContactChange s' f v) = contactTouched s'
   \<and> contactSubmitted (onContactChange (onContactSubmit s) f v) = False"
  by (simp add: onContactSubmit_def onContactChange_def isContactValid_def obj_keys_def Let_def)

theorem contact_submit_flow_witness:
  "onContactSubmit \<lparr>contactValues = sample_valid, contactTouched = (\<lambda>_. False),
       contactSubmitted = False\<rparr>
     = \<lparr>contactValues = (\<lambda>_. []), contactTouched = (\<lambda>_. False), contactSubmitted = True\<rparr>
   \<and> onContactSubmit \<lparr>contactValues = sample_invalid, contactTouched = (\<lambda>_. False),
       contactSubmitted = False\<rparr>
     = \<lparr>contactValues = sample_invalid, contactTouched = (\<lambda>_. True), contactSubmitted = False\<rparr>"
proof -
  from validateContact_sample_invalid contact_submit_flow [of "\<lparr>contactValues = sample_valid, contactTouched = (\<lambda>_. False),
       contactSubmitted = False\<rparr>"]
    contact_submit_flow [of "\<lparr>contactValues = sample_invalid, contactTouched = (\<lambda>_. False),
       contactSubmitted = False\<rparr>"]
  show ?thesis by (simp add: validateContact_sample_valid)
qed

section \<open>Properties of the scroll spy\<close>

lemma round_half_even_of_int: "round_half_even (of_int m) = m"
  by (simp add: round_half_even_def)

lemma floor_log2_eq:
  assumes "2 ^ k \<le> x" and "x < 2 ^ Suc k"
  shows "\<lfloor>log 2 x\<rfloor> = int k"
proof -
  have pos: "0 < x" using assms(1) by (smt (verit) zero_less_power)
  have "real k \<le> log 2 x"
    using assms(1) pos by (simp add: le_log_iff powr_realpow)
  moreover have "log 2 x < real k + 1"
  proof -
    have "2 powr real (Suc k) = (2::real) ^ Suc k"
      by (rule powr_realpow) simp
    with assms(2) have "x < 2 powr real (Suc k)" by (simp only:)
    with pos have "log 2 x < real (Suc k)"
      using log_less_iff [of 2 x "real (Suc k)"] by fastforce
    then show ?thesis by (simp add: add.commute)
  qed
  ultimately show ?thesis by (simp add: floor_eq_iff)
qed

lemma double_ulp_binade:
  assumes "2 ^ k \<le> \<bar>x\<bar>" and "\<bar>x\<bar> < 2 ^ Suc k" and "k \<le> 52"
  shows "double_ulp x = 1 / 2 ^ (52 - k)"
proof -
  have "\<lfloor>log 2 \<bar>x\<bar>\<rfloor> = int k" using assms(1,2) by (rule floor_log2_eq)
  then have "double_ulp x = 2 powr (of_int (int k - 52))"
    by (simp add: double_ulp_def)
  also have "\<dots> = 2 powr (- real (52 - k))"
    using assms(3) by (simp add: of_nat_diff)
  also have "\<dots> = 1 / 2 ^ (52 - k)"
    by (simp add: powr_minus powr_realpow divide_inverse)
  finally show ?thesis .
qed

lemma binade_exists:
  fixes a :: real
  assumes "1 \<le> a" and "a < 2 ^ n"
  shows "\<exists>k<n. 2 ^ k \<le> a \<and> a < 2 ^ Suc k"
  using assms
proof (induction n)
  case 0
  then show ?case by simp
next
  case (Suc n)
  show ?case
  proof (cases "a < 2 ^ n")
    case True
    with Suc.IH Suc.prems(1) obtain k where "k < n" "2 ^ k \<le> a" "a < 2 ^ Suc k" by blast
    then show ?thesis by (intro exI [of _ k]) simp
  next
    case False
    with Suc.prems(2) show ?thesis by (intro exI [of _ n]) simp
  qed
qed

lemma double_round_of_int:
  assumes "\<bar>n\<bar> < 2 ^ 53"
  shows "double_round (of_int n) = of_int n"
proof (cases "n = 0")
  case True
  then show ?thesis by (simp add: double_round_def)
next
  case False
  let ?x = "of_int n :: real"
  from False have "1 \<le> \<bar>?x\<bar>" by (simp flip: of_int_abs add: of_int_le_iff [where 'a=real, of 1, simplified])
  moreover from assms have "\<bar>?x\<bar> < 2 ^ 53"
    by (metis of_int_abs of_int_less_iff of_int_numeral of_int_power)
  ultimately obtain k where k: "k < 53" "2 ^ k \<le> \<bar>?x\<bar>" "\<bar>?x\<bar> < 2 ^ Suc k"
    using binade_exists by blast
  then have u: "double_ulp ?x = 1 / 2 ^ (52 - k)"
    by (intro double_ulp_binade) simp_all
  have "?x / double_ulp ?x = of_int (n * 2 ^ (52 - k))"
    by (simp add: u)
  then have "round_half_even (?x / double_ulp ?x) = n * 2 ^ (52 - k)"
    by (simp only: round_half_even_of_int)
  with False show ?thesis
    by (simp add: double_round_def u)
qed

lemma double_round_numerals:
  "double_round 96 = 96" "double_round 696 = 696" "double_round 1496 = 1496"
  "double_round 106 = 106"
  using double_round_of_int [of 96] double_round_of_int [of 696] double_round_of_int [of 1496]
    double_round_of_int [of 106]
  by simp_all

lemma double_round_below_97: "double_round ((1 - 1 / 2 ^ 53) + 96) = 97"
proof -
  let ?x = "(1 - 1 / 2 ^ 53) + 96 :: real"
  have b: "2 ^ 6 \<le> \<bar>?x\<bar>" "\<bar>?x\<bar> < 2 ^ Suc 6" by simp_all
  then have u: "double_ulp ?x = 1 / 2 ^ 46"
    using double_ulp_binade [of 6 ?x] by simp
  have q: "?x / double_ulp ?x = 97 * 2 ^ 46 - 1 / 2 ^ 7"
    unfolding u by simp
  have f: "\<lfloor>97 * 2 ^ 46 - 1 / 2 ^ 7 :: real\<rfloor> = 97 * 2 ^ 46 - 1"
    by (simp add: floor_eq_iff)
  have "round_half_even (?x / double_ulp ?x) = 97 * 2 ^ 46"
    unfolding q round_half_even_def Let_def f by simp
  then have "double_round ?x = of_int (97 * 2 ^ 46) * (1 / 2 ^ 46)"
    unfolding double_round_def u by simp
  then show ?thesis by simp
qed

lemma scroll_current_rounded_sum:
  "scroll_current ''home'' [''about'']
     [\<lparr>elem_id = ''home'', offsetTop = 0\<rparr>, \<lparr>elem_id = ''about'', offsetTop = 97\<rparr>]
     (1 - 1 / 2 ^ 53) = ''about''"
  by (simp only: scroll_current_def Let_def double_round_below_97)
    (simp add: getElementById_def)

lemma getElementById_Some:
  assumes "getElementById doc i = Some el"
  shows "elem_id el = i" and "i \<noteq> []"
  using assms by (auto simp: getElementById_def find_Some_iff split: if_splits)

lemma qualifies_empty_id: "\<not> qualifies doc pos []"
  by (simp add: qualifies_def getElementById_def)

lemma scroll_walk_filter:
  "scroll_walk doc pos ids cur =
     (if filter (qualifies doc pos) ids = [] then cur else last (filter (qualifies doc pos) ids))"
  by (induction ids arbitrary: cur) (auto simp: qualifies_def split: option.splits)

lemma filter_qualifies_nonempty:
  "filter (qualifies doc pos) (filter (\<lambda>i. i \<noteq> []) ids) = filter (qualifies doc pos) ids"
proof -
  have "\<And>i. (qualifies doc pos i \<and> i \<noteq> []) = qualifies doc pos i"
    using qualifies_empty_id by blast
  then show ?thesis by (simp add: conj_commute)
qed

lemma scroll_current_mem: "scroll_current id0 rest doc y \<in> set (id0 # rest)"
proof -
  let ?q = "filter (qualifies doc (double_round (y + 96))) (id0 # rest)"
  have "?q \<noteq> [] \<Longrightarrow> last ?q \<in> set (id0 # rest)"
    using last_in_set [of ?q] by (metis filter_is_subset subsetD)
  then show ?thesis
    unfolding scroll_current_def Let_def scroll_walk_filter by auto
qed

lemma set_js_insert: "set (js_insert cmp x ys) = insert x (set ys)"
  by (induction ys) auto

lemma set_js_sort: "set (js_sort cmp xs) = set xs"
  by (induction xs) (simp_all add: js_sort_def set_js_insert)

lemma js_sort_Cons: "js_sort cmp (x # xs) = js_insert cmp x (js_sort cmp xs)"
  by (simp add: js_sort_def)

lemma compare_visible_le_iff:
  "compare_visible a b \<le> 0 \<longleftrightarrow>
     v_ratio b < v_ratio a \<or> (v_ratio a = v_ratio b \<and> \<bar>v_top a\<bar> \<le> \<bar>v_top b\<bar>)"
  by (auto simp: compare_visible_def)

lemma compare_visible_total: "\<not> compare_visible a b \<le> 0 \<Longrightarrow> compare_visible b a \<le> 0"
  unfolding compare_visible_le_iff by linarith

lemma compare_visible_trans:
  "compare_visible a b \<le> 0 \<Longrightarrow> compare_visible b c \<le> 0 \<Longrightarrow> compare_visible a c \<le> 0"
  unfolding compare_visible_le_iff by linarith

lemma compare_visible_refl: "compare_visible a a \<le> 0"
  by (simp add: compare_visible_def)

lemma hd_js_insert_least:
  assumes "\<forall>y\<in>set ys. compare_visible (hd ys) y \<le> 0"
  shows "\<forall>y\<in>set (js_insert compare_visible x ys).
           compare_visible (hd (js_insert compare_visible x ys)) y \<le> 0"
proof (cases ys)
  case Nil
  then show ?thesis by (simp add: compare_visible_refl)
next
  case (Cons z zs)
  show ?thesis
  proof (cases "compare_visible x z \<le> 0")
    case True
    with assms Cons show ?thesis
      by (auto simp: compare_visible_refl intro: compare_visible_trans)
  next
    case False
    then have "compare_visible z x \<le> 0" by (rule compare_visible_total)
    with assms Cons False show ?thesis
      by (auto simp: set_js_insert)
  qed
qed

lemma hd_js_sort_least:
  "\<forall>y\<in>set (js_sort compare_visible xs). compare_visible (hd (js_sort compare_visible xs)) y \<le> 0"
proof (induction xs)
  case Nil
  show ?case by (simp add: js_sort_def)
next
  case (Cons x xs)
  then show ?case
    unfolding js_sort_Cons by (rule hd_js_insert_least)
qed

lemma visible_of_head:
  assumes "visible_of entries = v # vs"
  shows "\<exists>w\<in>set entries. isIntersecting w \<and> v = to_visible w
           \<and> (\<forall>x\<in>set entries. isIntersecting x \<longrightarrow>
                 intersectionRatio x \<le> intersectionRatio w
                 \<and> (intersectionRatio x = intersectionRatio w \<longrightarrow> \<bar>rect_top w\<bar> \<le> \<bar>rect_top x\<bar>))"
proof -
  let ?cands = "map to_visible (filter isIntersecting entries)"
  from assms have srt: "js_sort compare_visible ?cands = v # vs"
    by (simp add: visible_of_def)
  then have "v \<in> set (js_sort compare_visible ?cands)" by simp
  then have "v \<in> set ?cands" by (simp only: set_js_sort)
  then obtain w where w: "w \<in> set entries" "isIntersecting w" "v = to_visible w"
    by auto
  have "\<forall>y\<in>set (js_sort compare_visible ?cands).
          compare_visible (hd (js_sort compare_visible ?cands)) y \<le> 0"
    by (rule hd_js_sort_least)
  then have "\<forall>y\<in>set ?cands. compare_visible (hd (js_sort compare_visible ?cands)) y \<le> 0"
    by (simp only: set_js_sort)
  then have least: "\<forall>y\<in>set ?cands. compare_visible v y \<le> 0"
    by (simp only: srt list.sel)
  have "\<forall>x\<in>set entries. isIntersecting x \<longrightarrow>
          intersectionRatio x \<le> intersectionRatio w
          \<and> (intersectionRatio x = intersectionRatio w \<longrightarrow> \<bar>rect_top w\<bar> \<le> \<bar>rect_top x\<bar>)"
  proof (intro ballI impI)
    fix x assume "x \<in> set entries" "isIntersecting x"
    then have "to_visible x \<in> set ?cands" by simp
    with least have "compare_visible v (to_visible x) \<le> 0" by blast
    then show "intersectionRatio x \<le> intersectionRatio w
          \<and> (intersectionRatio x = intersectionRatio w \<longrightarrow> \<bar>rect_top w\<bar> \<le> \<bar>rect_top x\<bar>)"
      unfolding compare_visible_le_iff w(3) by (auto simp: to_visible_def)
  qed
  with w show ?thesis by blast
qed

lemma visible_of_Nil_iff: "visible_of entries = [] \<longleftrightarrow> filter isIntersecting entries = []"
proof -
  have "set (visible_of entries) = to_visible ` set (filter isIntersecting entries)"
    by (simp add: visible_of_def set_js_sort)
  then show ?thesis
    by (metis image_is_empty set_empty)
qed

lemma listener_setActiveId: "listener (setActiveId s upd) = listener s"
  by (cases upd) (simp_all add: setActiveId_def)

lemma listener_spy_step: "listener (spy_step s ev) = listener s"
  by (cases ev) (simp_all add: listener_setActiveId split: listener.splits)

lemma listener_spy_run: "listener (spy_run s evs) = listener s"
  unfolding spy_run_def by (induction evs arbitrary: s) (simp_all add: listener_spy_step)

lemma observer_callback_mem:
  assumes "list_all (\<lambda>e. target e \<in> set obs) entries"
    and "observer_callback latest entries = Some i"
  shows "i \<in> elem_id ` set obs"
proof -
  from assms(2) obtain v vs where v: "visible_of entries = v # vs" and i: "i = v_id v"
    by (auto simp: observer_callback_def split: list.splits if_splits)
  from visible_of_head [OF v] obtain w where "w \<in> set entries" "v = to_visible w"
    by blast
  with assms(1) i show ?thesis
    by (auto simp: list_all_iff to_visible_def)
qed

lemma onScroll_mem: "onScroll id0 rest doc y latest = Some i \<Longrightarrow> i \<in> set (id0 # rest)"
  using scroll_current_mem [of id0 rest doc y]
  by (auto simp: onScroll_def Let_def split: if_splits)

lemma spy_step_member:
  assumes "delivered_by (listener s) ev"
  shows "activeId (spy_step s ev) \<in> insert (activeId s) (listener_ids (listener s))"
proof (cases ev)
  case (Intersection entries)
  show ?thesis
  proof (cases "listener s")
    case (Observer obs)
    with assms Intersection have ok: "list_all (\<lambda>e. target e \<in> set obs) entries" by simp
    show ?thesis
    proof (cases "observer_callback (latestActive s) entries")
      case None
      with Intersection Observer show ?thesis by (simp add: setActiveId_def)
    next
      case (Some i)
      with ok have "i \<in> elem_id ` set obs" by (rule observer_callback_mem)
      with Intersection Observer Some show ?thesis
        by (simp add: setActiveId_def listener_ids_def)
    qed
  qed (simp_all add: Intersection)
next
  case (Scroll doc y)
  show ?thesis
  proof (cases "listener s")
    case (ScrollListener id0 rest)
    show ?thesis
    proof (cases "onScroll id0 rest doc y (latestActive s)")
      case None
      with Scroll ScrollListener show ?thesis by (simp add: setActiveId_def)
    next
      case (Some i)
      then have "i \<in> set (id0 # rest)" by (rule onScroll_mem)
      with Scroll ScrollListener Some show ?thesis
        by (simp add: setActiveId_def listener_ids_def)
    qed
  qed (simp_all add: Scroll)
next
  case SyncRef
  then show ?thesis by simp
qed

lemma spy_run_member:
  assumes "list_all (delivered_by (listener s)) evs"
  shows "activeId (spy_run s evs) \<in> insert (activeId s) (listener_ids (listener s))"
  using assms
proof (induction evs arbitrary: s)
  case Nil
  show ?case by (simp add: spy_run_def)
next
  case (Cons ev evs)
  from Cons.prems have d: "delivered_by (listener s) ev"
    and r: "list_all (delivered_by (listener (spy_step s ev))) evs"
    by (simp_all add: listener_spy_step)
  from Cons.IH [OF r]
  have "activeId (spy_run (spy_step s ev) evs)
          \<in> insert (activeId (spy_step s ev)) (listener_ids (listener s))"
    by (simp add: listener_spy_step)
  with spy_step_member [OF d] show ?case
    by (auto simp: spy_run_def)
qed

lemma map_filter_getElementById:
  "elem_id ` set (List.map_filter (getElementById doc) ids) \<subseteq> set ids"
  by (auto simp: List.map_filter_def dest: getElementById_Some)

lemma mount_listener_ids:
  "listener_ids (listener (useScrollSpy_mount sectionIds hasIO doc y)) \<subseteq> set sectionIds"
proof (cases "filter (\<lambda>i. i \<noteq> []) sectionIds")
  case Nil
  then show ?thesis by (simp add: useScrollSpy_mount_def listener_ids_def)
next
  case (Cons id0 rest)
  then have sub: "set (id0 # rest) \<subseteq> set sectionIds"
    by (metis filter_is_subset)
  show ?thesis
  proof (cases hasIO)
    case True
    with Cons have l: "listener (useScrollSpy_mount sectionIds hasIO doc y)
          = Observer (List.map_filter (getElementById doc) (id0 # rest))"
      by (simp add: useScrollSpy_mount_def Let_def)
    have "elem_id ` set (List.map_filter (getElementById doc) (id0 # rest)) \<subseteq> set (id0 # rest)"
      by (rule map_filter_getElementById)
    then have "elem_id ` set (List.map_filter (getElementById doc) (id0 # rest)) \<subseteq> set sectionIds"
      using sub by (rule subset_trans)
    then show ?thesis
      by (simp only: l listener_ids_def listener.case)
  next
    case False
    with Cons have "listener (useScrollSpy_mount sectionIds hasIO doc y) = ScrollListener id0 rest"
      by (simp add: useScrollSpy_mount_def Let_def listener_setActiveId)
    with sub show ?thesis
      by (simp only: listener_ids_def listener.case)
  qed
qed

lemma mount_activeId:
  "activeId (useScrollSpy_mount sectionIds hasIO doc y)
     \<in> insert (initial_activeId sectionIds) (set sectionIds)"
proof (cases "filter (\<lambda>i. i \<noteq> []) sectionIds")
  case Nil
  then show ?thesis by (simp add: useScrollSpy_mount_def)
next
  case (Cons id0 rest)
  then have sub: "set (id0 # rest) \<subseteq> set sectionIds"
    by (metis filter_is_subset)
  show ?thesis
  proof (cases hasIO)
    case True
    with Cons show ?thesis by (simp add: useScrollSpy_mount_def Let_def)
  next
    case False
    show ?thesis
    proof (cases "onScroll id0 rest doc y (initial_activeId sectionIds)")
      case None
      with Cons False show ?thesis by (simp add: useScrollSpy_mount_def Let_def setActiveId_def)
    next
      case (Some i)
      then have "i \<in> set (id0 # rest)" by (rule onScroll_mem)
      with sub have "i \<in> set sectionIds" by blast
      with Cons False Some show ?thesis
        by (simp add: useScrollSpy_mount_def Let_def setActiveId_def)
    qed
  qed
qed

lemma mount_listener_observer:
  assumes "filter (\<lambda>i. i \<noteq> []) sectionIds \<noteq> []"
  shows "\<exists>obs. listener (useScrollSpy_mount sectionIds True doc y) = Observer obs"
  using assms by (simp add: useScrollSpy_mount_def Let_def split: list.splits)

lemma mount_listener_scroll:
  assumes "filter (\<lambda>i. i \<noteq> []) sectionIds = id0 # rest"
  shows "listener (useScrollSpy_mount sectionIds False doc y) = ScrollListener id0 rest"
  using assms by (simp add: useScrollSpy_mount_def Let_def listener_setActiveId)

lemma mount_scroll_activeId:
  assumes "filter (\<lambda>i. i \<noteq> []) sectionIds = id0 # rest"
  shows "activeId (useScrollSpy_mount sectionIds False doc y) = scroll_current id0 rest doc y"
  using assms by (simp add: useScrollSpy_mount_def Let_def onScroll_def setActiveId_def)

lemma mount_sample_observer:
  "useScrollSpy_mount SECTION_IDS True sample_doc 0
     = \<lparr>activeId = ''home'', latestActive = ''home'', listener = Observer sample_doc\<rparr>"
  by (simp add: useScrollSpy_mount_def SECTION_IDS_def sample_doc_def initial_activeId_def
        List.map_filter_def getElementById_def)

lemma sample_entries_delivered: "list_all (\<lambda>e. target e \<in> set sample_doc) sample_entries"
  by (simp add: sample_entries_def sample_doc_def)

lemma qualifies_sample_600:
  "filter (qualifies sample_doc 696) SECTION_IDS = [''home'', ''about'']"
  by (simp add: qualifies_def getElementById_def sample_doc_def SECTION_IDS_def)

lemma qualifies_sample_1400:
  "filter (qualifies sample_doc 1496) SECTION_IDS = [''home'', ''about'', ''work'']"
  by (simp add: qualifies_def getElementById_def sample_doc_def SECTION_IDS_def)

lemma visible_of_home: "visible_of home_entries = [\<lparr>v_id = ''home'', v_ratio = 1/2, v_top = 0\<rparr>]"
  by (simp add: visible_of_def home_entries_def js_sort_def to_visible_def)

lemma step_intersection_activeId:
  assumes "listener s = Observer obs" and "visible_of entries = v # vs"
  shows "activeId (spy_step s (Intersection entries))
     = (if v_id v = latestActive s then activeId s else v_id v)"
  using assms by (simp add: observer_callback_def setActiveId_def)

lemma step_scroll_activeId:
  assumes "listener s = ScrollListener id0 rest"
  shows "activeId (spy_step s (Scroll doc y))
     = (if scroll_current id0 rest doc y = latestActive s then activeId s
        else scroll_current id0 rest doc y)"
  using assms by (simp add: onScroll_def setActiveId_def Let_def)

lemma scroll_current_filter:
  assumes "filter (\<lambda>i. i \<noteq> []) sectionIds = id0 # rest"
  shows "scroll_current id0 rest doc y =
     (if filter (qualifies doc (double_round (y + 96))) sectionIds = [] then id0
      else last (filter (qualifies doc (double_round (y + 96))) sectionIds))"
proof -
  have "filter (qualifies doc (double_round (y + 96))) (id0 # rest)
      = filter (qualifies doc (double_round (y + 96))) sectionIds"
    unfolding assms [symmetric] by (rule filter_qualifies_nonempty)
  then show ?thesis
    by (simp only: scroll_current_def Let_def scroll_walk_filter)
qed

lemma mount_observer_activeId:
  "activeId (useScrollSpy_mount sectionIds True doc y) = initial_activeId sectionIds"
  by (simp add: useScrollSpy_mount_def Let_def split: list.splits)

lemma spy_step_idle:
  assumes "listener s = NoListener" and "latestActive s = activeId s"
  shows "spy_step s ev = s"
proof (cases ev)
  case SyncRef
  from assms(2) have "s\<lparr>latestActive := activeId s\<rparr> = s" by (cases s) simp
  with SyncRef show ?thesis by simp
qed (simp_all add: assms(1))

lemma spy_run_idle:
  assumes "listener s = NoListener" and "latestActive s = activeId s"
  shows "spy_run s evs = s"
  unfolding spy_run_def by (induction evs) (simp_all add: spy_step_idle [OF assms])

lemma setActiveId_same: "setActiveId s (Some (activeId s)) = s"
  by (simp add: setActiveId_def)

lemma mount_sample_scroll:
  "useScrollSpy_mount SECTION_IDS False sample_doc 0
     = \<lparr>activeId = ''home'', latestActive = ''home'',
        listener = ScrollListener ''home'' [''about'', ''work'', ''contact'']\<rparr>"
  by (simp add: useScrollSpy_mount_def SECTION_IDS_def sample_doc_def initial_activeId_def
        getElementById_def onScroll_def scroll_current_def setActiveId_def
        double_round_numerals)

lemma mount_sample_scroll_600:
  "useScrollSpy_mount SECTION_IDS False sample_doc 600
     = \<lparr>activeId = ''about'', latestActive = ''home'',
        listener = ScrollListener ''home'' [''about'', ''work'', ''contact'']\<rparr>"
  by (simp add: useScrollSpy_mount_def SECTION_IDS_def sample_doc_def initial_activeId_def
        getElementById_def onScroll_def scroll_current_def setActiveId_def
        double_round_numerals)

lemma scroll_current_sample_0:
  "scroll_current ''home'' [''about'', ''work'', ''contact''] sample_doc 0 = ''home''"
  by (simp add: scroll_current_def getElementById_def sample_doc_def double_round_numerals)

lemma visible_of_work:
  "visible_of work_entries = [\<lparr>v_id = ''work'', v_ratio = 1/2, v_top = 40\<rparr>]"
  by (simp add: visible_of_def work_entries_def js_sort_def to_visible_def)

lemma scroll_current_sample_10:
  "scroll_current ''home'' [''about'', ''work'', ''contact''] sample_doc 10 = ''home''"
  by (simp add: scroll_current_def getElementById_def sample_doc_def double_round_numerals)

text \<open>
  Claim C4, as amended.  For every non-empty list of section ids whose first id is not the
  empty string, \<open>activeId\<close> is a member of the list at the first render, after the mount
  and after any sequence of intersection events, scroll events and runs of the ref effect,
  on either path (the observer reporting only elements it observes).  At the first render
  \<open>activeId\<close> is the first id of the list, and on the observer path it is still the first
  id after the mount, until a delivery arrives.
\<close>

theorem activeId_member:
  assumes "sectionIds \<noteq> []" and "hd sectionIds \<noteq> []"
    and "list_all (delivered_by (listener (useScrollSpy_mount sectionIds hasIO doc scrollY))) evs"
  shows "initial_activeId sectionIds = hd sectionIds
     \<and> activeId (useScrollSpy_mount sectionIds True doc scrollY) = hd sectionIds
     \<and> initial_activeId sectionIds \<in> set sectionIds
     \<and> activeId (spy_run (useScrollSpy_mount sectionIds hasIO doc scrollY) evs) \<in> set sectionIds"
proof -
  from assms(1,2) have init: "initial_activeId sectionIds = hd sectionIds"
    by (cases sectionIds) (simp_all add: initial_activeId_def)
  with assms(1) have mem: "initial_activeId sectionIds \<in> set sectionIds" by simp
  let ?m = "useScrollSpy_mount sectionIds hasIO doc scrollY"
  from mem mount_activeId [of sectionIds hasIO doc scrollY]
  have "activeId ?m \<in> set sectionIds" by auto
  with spy_run_member [OF assms(3)] mount_listener_ids [of sectionIds hasIO doc scrollY]
  have "activeId (spy_run ?m evs) \<in> set sectionIds" by auto
  with init mem show ?thesis by (simp add: mount_observer_activeId)
qed

theorem activeId_member_witness:
  "initial_activeId SECTION_IDS = hd SECTION_IDS
   \<and> activeId (useScrollSpy_mount SECTION_IDS True sample_doc 0) = hd SECTION_IDS
   \<and> initial_activeId SECTION_IDS \<in> set SECTION_IDS
   \<and> activeId (spy_run (useScrollSpy_mount SECTION_IDS True sample_doc 0)
        [Intersection sample_entries, SyncRef, Intersection home_entries]) \<in> set SECTION_IDS"
proof -
  have 1: "SECTION_IDS \<noteq> []" and 2: "hd SECTION_IDS \<noteq> []"
    by (simp_all add: SECTION_IDS_def)
  have "list_all (\<lambda>e. target e \<in> set sample_doc) home_entries"
    by (simp add: home_entries_def sample_doc_def)
  then have 3: "list_all (delivered_by (listener (useScrollSpy_mount SECTION_IDS True sample_doc 0)))
             [Intersection sample_entries, SyncRef, Intersection home_entries]"
    by (simp add: mount_sample_observer sample_entries_delivered)
  from 1 2 3 show ?thesis by (rule activeId_member)
qed

text \<open>
  The claim as the spec words it covers every non-empty list and every state before the
  first event.  The empty string is falsy, so for the list \<open>["", "about"]\<close> the source
  starts with \<open>"home"\<close>, which is neither the first id nor a member of the list.  On the
  fallback path the mount itself calls \<open>onScroll()\<close>: for the sections of \<open>App\<close> at
  \<open>scrollY = 600\<close> the mounted hook has \<open>activeId = "about"\<close> before any event.
\<close>

theorem activeId_member_counterexample:
  "['''', ''about''] \<noteq> []
   \<and> initial_activeId ['''', ''about''] = ''home''
   \<and> initial_activeId ['''', ''about''] \<noteq> hd ['''', ''about'']
   \<and> initial_activeId ['''', ''about''] \<notin> set ['''', ''about'']
   \<and> activeId (spy_run (useScrollSpy_mount ['''', ''about''] True blank_doc 0) [])
       \<notin> set ['''', ''about'']
   \<and> hd SECTION_IDS = ''home''
   \<and> activeId (spy_run (useScrollSpy_mount SECTION_IDS False sample_doc 600) []) = ''about''"
proof -
  have a: "['''', ''about''] \<noteq> []
   \<and> initial_activeId ['''', ''about''] = ''home''
   \<and> initial_activeId ['''', ''about''] \<noteq> hd ['''', ''about'']
   \<and> initial_activeId ['''', ''about''] \<notin> set ['''', ''about'']
   \<and> activeId (spy_run (useScrollSpy_mount ['''', ''about''] True blank_doc 0) [])
       \<notin> set ['''', ''about'']"
    by (simp add: initial_activeId_def useScrollSpy_mount_def spy_run_def)
  have b: "hd SECTION_IDS = ''home''"
    by (simp add: SECTION_IDS_def)
  have c: "activeId (spy_run (useScrollSpy_mount SECTION_IDS False sample_doc 600) []) = ''about''"
    by (simp add: spy_run_def mount_sample_scroll_600)
  from a b c show ?thesis by blast
qed

text \<open>
  Claim C5.  On the observer path, when a delivery holds an intersecting entry, the
  handler selects the entry that heads the sorted list: an intersecting entry of the
  delivery with the greatest intersection ratio and, among the entries with that ratio,
  with the least absolute distance of its top edge from the viewport top.  Its id is the
  only id the handler passes to \<open>setActiveId\<close>, which it does unless the id equals the ref.
\<close>

theorem observer_selection:
  assumes "e \<in> set entries" and "isIntersecting e"
  shows "\<exists>w\<in>set entries. isIntersecting w
     \<and> (\<exists>vs. visible_of entries = to_visible w # vs)
     \<and> observer_callback latest entries
         = (if elem_id (target w) = latest then None else Some (elem_id (target w)))
     \<and> (listener s = Observer obs \<longrightarrow>
          activeId (spy_step s (Intersection entries))
            = (if elem_id (target w) = latestActive s then activeId s else elem_id (target w)))
     \<and> (\<forall>x\<in>set entries. isIntersecting x \<longrightarrow>
           intersectionRatio x \<le> intersectionRatio w
           \<and> (intersectionRatio x = intersectionRatio w \<longrightarrow> \<bar>rect_top w\<bar> \<le> \<bar>rect_top x\<bar>))"
proof -
  from assms have "filter isIntersecting entries \<noteq> []"
    by (auto simp: filter_empty_conv)
  then have "visible_of entries \<noteq> []" by (simp add: visible_of_Nil_iff)
  then obtain v vs where v: "visible_of entries = v # vs" by (cases "visible_of entries") auto
  from visible_of_head [OF v] obtain w where w: "w \<in> set entries" "isIntersecting w"
    "v = to_visible w"
    and best: "\<forall>x\<in>set entries. isIntersecting x \<longrightarrow>
           intersectionRatio x \<le> intersectionRatio w
           \<and> (intersectionRatio x = intersectionRatio w \<longrightarrow> \<bar>rect_top w\<bar> \<le> \<bar>rect_top x\<bar>)"
    by blast
  from w(3) have i: "v_id v = elem_id (target w)" by (simp add: to_visible_def)
  from v i have cb: "observer_callback latest entries
         = (if elem_id (target w) = latest then None else Some (elem_id (target w)))"
    by (simp add: observer_callback_def)
  have st: "listener s = Observer obs \<longrightarrow>
          activeId (spy_step s (Intersection entries))
            = (if elem_id (target w) = latestActive s then activeId s else elem_id (target w))"
    using step_intersection_activeId [of s obs entries v vs] v i by simp
  from w v best cb st show ?thesis by blast
qed

theorem observer_selection_witness:
  "observer_callback ''home'' sample_entries = Some ''work''
   \<and> activeId (spy_step (useScrollSpy_mount SECTION_IDS True sample_doc 0)
        (Intersection sample_entries)) = ''work''"
proof -
  let ?s = "useScrollSpy_mount SECTION_IDS True sample_doc 0"
  have 1: "sample_entries ! 1 \<in> set sample_entries" "isIntersecting (sample_entries ! 1)"
    by (simp_all add: sample_entries_def)
  have l: "listener ?s = Observer sample_doc" "latestActive ?s = ''home''"
    by (simp_all add: mount_sample_observer)
  from observer_selection [OF 1, of "''home''" ?s sample_doc] l
  obtain w where w: "w \<in> set sample_entries" "isIntersecting w"
    and c: "observer_callback ''home'' sample_entries
         = (if elem_id (target w) = ''home'' then None else Some (elem_id (target w)))"
    and a: "activeId (spy_step ?s (Intersection sample_entries))
         = (if elem_id (target w) = ''home'' then activeId ?s else elem_id (target w))"
    and best: "\<forall>x\<in>set sample_entries. isIntersecting x \<longrightarrow>
           intersectionRatio x \<le> intersectionRatio w
           \<and> (intersectionRatio x = intersectionRatio w \<longrightarrow> \<bar>rect_top w\<bar> \<le> \<bar>rect_top x\<bar>)"
    by auto
  from w best have "elem_id (target w) = ''work''"
    by (auto simp: sample_entries_def)
  with a c show ?thesis by simp
qed

text \<open>
  Claim C6, as amended.  On the fallback path, at the mount and at every scroll event, the
  handler takes the double sum \<open>scrollY + 96\<close> and selects the last section in list order
  that has an element whose top offset is at most that value (an id with no element never
  qualifies); when no section qualifies it selects the first id that is not the empty
  string.  The handler passes the selected id to \<open>setActiveId\<close> unless it equals the ref:
  the selected id is the active id after the mount, and after a scroll event whenever the
  ref was in step with \<open>activeId\<close> or differs from the selected id.
\<close>

theorem fallback_selection:
  assumes "filter (\<lambda>i. i \<noteq> []) sectionIds = id0 # rest"
    and "s = spy_run (useScrollSpy_mount sectionIds False doc0 y0) evs"
  shows "scroll_current id0 rest doc scrollY =
       (if filter (qualifies doc (double_round (scrollY + 96))) sectionIds = [] then id0
        else last (filter (qualifies doc (double_round (scrollY + 96))) sectionIds))
     \<and> activeId (useScrollSpy_mount sectionIds False doc scrollY)
         = scroll_current id0 rest doc scrollY
     \<and> listener s = ScrollListener id0 rest
     \<and> onScroll id0 rest doc scrollY (latestActive s)
         = (if scroll_current id0 rest doc scrollY = latestActive s then None
            else Some (scroll_current id0 rest doc scrollY))
     \<and> (latestActive s = activeId s \<or> scroll_current id0 rest doc scrollY \<noteq> latestActive s \<longrightarrow>
          activeId (spy_step s (Scroll doc scrollY)) = scroll_current id0 rest doc scrollY)"
proof -
  have l: "listener s = ScrollListener id0 rest"
    unfolding assms(2) by (simp add: listener_spy_run mount_listener_scroll [OF assms(1)])
  have o: "onScroll id0 rest doc scrollY (latestActive s)
         = (if scroll_current id0 rest doc scrollY = latestActive s then None
            else Some (scroll_current id0 rest doc scrollY))"
    by (simp add: onScroll_def)
  have a: "latestActive s = activeId s \<or> scroll_current id0 rest doc scrollY \<noteq> latestActive s \<longrightarrow>
          activeId (spy_step s (Scroll doc scrollY)) = scroll_current id0 rest doc scrollY"
    using step_scroll_activeId [OF l, of doc scrollY] by auto
  from scroll_current_filter [OF assms(1)] mount_scroll_activeId [OF assms(1)] l o a
  show ?thesis by blast
qed

theorem fallback_selection_witness:
  "activeId (useScrollSpy_mount SECTION_IDS False sample_doc 600) = ''about''
   \<and> activeId (spy_step (useScrollSpy_mount SECTION_IDS False sample_doc 0)
        (Scroll sample_doc 1400)) = ''work''"
proof -
  have f: "filter (\<lambda>i. i \<noteq> []) SECTION_IDS = ''home'' # [''about'', ''work'', ''contact'']"
    by (simp add: SECTION_IDS_def)
  have r: "useScrollSpy_mount SECTION_IDS False sample_doc 0
      = spy_run (useScrollSpy_mount SECTION_IDS False sample_doc 0) []"
    by (simp add: spy_run_def)
  have y: "latestActive (useScrollSpy_mount SECTION_IDS False sample_doc 0)
      = activeId (useScrollSpy_mount SECTION_IDS False sample_doc 0)"
    by (simp add: mount_sample_scroll)
  from fallback_selection [OF f r, of sample_doc 600] fallback_selection [OF f r, of sample_doc 1400] y
  show ?thesis
    by (simp add: qualifies_sample_600 qualifies_sample_1400 double_round_numerals
          del: spy_step.simps)
qed

text \<open>
  The claim as the spec words it defaults to the first section id and makes every
  selection active.  Empty ids are dropped before the walk: for the list
  \<open>["", "about"]\<close> with no qualifying section the source selects \<open>"about"\<close>, not the first
  id.  And a selection equal to a ref that is out of step is not made active: after the
  mount at \<open>scrollY = 600\<close> the state is \<open>"about"\<close> and the ref still \<open>"home"\<close>; a scroll to
  the top before the ref effect runs selects \<open>"home"\<close> and leaves \<open>"about"\<close> active.
\<close>

theorem fallback_selection_counterexample:
  "filter (qualifies blank_doc (double_round (0 + 96))) ['''', ''about''] = []
   \<and> hd ['''', ''about''] = ''''
   \<and> activeId (useScrollSpy_mount ['''', ''about''] False blank_doc 0) = ''about''
   \<and> scroll_current ''home'' [''about'', ''work'', ''contact''] sample_doc 0 = ''home''
   \<and> activeId (spy_step (useScrollSpy_mount SECTION_IDS False sample_doc 600)
        (Scroll sample_doc 0)) = ''about''"
proof -
  have a: "filter (qualifies blank_doc (double_round (0 + 96))) ['''', ''about''] = []
   \<and> hd ['''', ''about''] = ''''
   \<and> activeId (useScrollSpy_mount ['''', ''about''] False blank_doc 0) = ''about''"
    by (simp add: qualifies_def getElementById_def blank_doc_def useScrollSpy_mount_def
          initial_activeId_def onScroll_def scroll_current_def setActiveId_def
          double_round_numerals)
  have b: "scroll_current ''home'' [''about'', ''work'', ''contact''] sample_doc 0 = ''home''"
    by (rule scroll_current_sample_0)
  have c: "activeId (spy_step (useScrollSpy_mount SECTION_IDS False sample_doc 600)
        (Scroll sample_doc 0)) = ''about''"
    by (simp add: mount_sample_scroll_600 onScroll_def scroll_current_sample_0 setActiveId_def)
  from a b c show ?thesis by blast
qed

text \<open>
  Claim C9, as amended.  On both paths, in every state, an event whose selected id equals
  the current \<open>activeId\<close> leaves the state of the hook as it was.  When in addition the ref
  is in step with \<open>activeId\<close> (the ref effect has run since the last change), the handler
  makes no call of \<open>setActiveId\<close>.  A run of the ref effect puts the ref in step.
\<close>

theorem reselection_idempotent:
  "(visible_of entries = v # vs \<longrightarrow> v_id v = activeId s \<longrightarrow>
      spy_step s (Intersection entries) = s
      \<and> (latestActive s = activeId s \<longrightarrow> observer_callback (latestActive s) entries = None))
   \<and> (listener s = ScrollListener id0 rest \<longrightarrow> scroll_current id0 rest doc y = activeId s \<longrightarrow>
        spy_step s (Scroll doc y) = s
        \<and> (latestActive s = activeId s \<longrightarrow> onScroll id0 rest doc y (latestActive s) = None))
   \<and> latestActive (spy_step s SyncRef) = activeId (spy_step s SyncRef)"
proof (intro conjI impI)
  assume a: "visible_of entries = v # vs" "v_id v = activeId s"
  then have "observer_callback (latestActive s) entries = None
      \<or> observer_callback (latestActive s) entries = Some (activeId s)"
    by (simp add: observer_callback_def)
  then show "spy_step s (Intersection entries) = s"
    by (auto simp: setActiveId_same setActiveId_def split: listener.splits)
  assume "latestActive s = activeId s"
  with a show "observer_callback (latestActive s) entries = None"
    by (simp add: observer_callback_def)
next
  assume a: "listener s = ScrollListener id0 rest" "scroll_current id0 rest doc y = activeId s"
  then have "onScroll id0 rest doc y (latestActive s) = None
      \<or> onScroll id0 rest doc y (latestActive s) = Some (activeId s)"
    by (simp add: onScroll_def Let_def)
  with a(1) show "spy_step s (Scroll doc y) = s"
    by (auto simp: setActiveId_same setActiveId_def)
  assume "latestActive s = activeId s"
  with a show "onScroll id0 rest doc y (latestActive s) = None"
    by (simp add: onScroll_def)
next
  show "latestActive (spy_step s SyncRef) = activeId (spy_step s SyncRef)" by simp
qed

theorem reselection_idempotent_witness:
  "observer_callback ''home'' home_entries = None
   \<and> spy_step (useScrollSpy_mount SECTION_IDS True sample_doc 0) (Intersection home_entries)
       = useScrollSpy_mount SECTION_IDS True sample_doc 0
   \<and> onScroll ''home'' [''about'', ''work'', ''contact''] sample_doc 10 ''home'' = None
   \<and> spy_step (useScrollSpy_mount SECTION_IDS False sample_doc 0) (Scroll sample_doc 10)
       = useScrollSpy_mount SECTION_IDS False sample_doc 0
   \<and> spy_step (useScrollSpy_mount SECTION_IDS False sample_doc 600) (Scroll sample_doc 600)
       = useScrollSpy_mount SECTION_IDS False sample_doc 600"
proof -
  from reselection_idempotent [of home_entries
      "\<lparr>v_id = ''home'', v_ratio = 1/2, v_top = 0\<rparr>" "[]"
      "useScrollSpy_mount SECTION_IDS True sample_doc 0"]
  have a: "observer_callback ''home'' home_entries = None
     \<and> spy_step (useScrollSpy_mount SECTION_IDS True sample_doc 0) (Intersection home_entries)
         = useScrollSpy_mount SECTION_IDS True sample_doc 0"
    by (simp add: visible_of_home mount_sample_observer del: spy_step.simps)
  from reselection_idempotent [of _ _ _ "useScrollSpy_mount SECTION_IDS False sample_doc 0"
      "''home''" "[''about'', ''work'', ''contact'']" sample_doc 10]
  have b: "onScroll ''home'' [''about'', ''work'', ''contact''] sample_doc 10 ''home'' = None
     \<and> spy_step (useScrollSpy_mount SECTION_IDS False sample_doc 0) (Scroll sample_doc 10)
         = useScrollSpy_mount SECTION_IDS False sample_doc 0"
    by (simp add: scroll_current_sample_10 mount_sample_scroll del: spy_step.simps)
  have "scroll_current ''home'' [''about'', ''work'', ''contact''] sample_doc 600 = ''about''"
    by (simp add: scroll_current_def getElementById_def sample_doc_def double_round_numerals)
  with reselection_idempotent [of _ _ _ "useScrollSpy_mount SECTION_IDS False sample_doc 600"
      "''home''" "[''about'', ''work'', ''contact'']" sample_doc 600]
  have c: "spy_step (useScrollSpy_mount SECTION_IDS False sample_doc 600) (Scroll sample_doc 600)
       = useScrollSpy_mount SECTION_IDS False sample_doc 600"
    by (simp add: mount_sample_scroll_600 del: spy_step.simps)
  from a b c show ?thesis by simp
qed

text \<open>
  The claim as the spec words it has no call of \<open>setActiveId\<close> whenever the selected id
  is the active one.  The handlers compare with the ref: after a delivery has made
  \<open>"work"\<close> active and before the ref effect runs, the ref is still \<open>"home"\<close>, and a second
  delivery that selects \<open>"work"\<close> calls \<open>setActiveId("work")\<close> again.
\<close>

theorem reselection_idempotent_counterexample:
  "activeId (spy_run (useScrollSpy_mount SECTION_IDS True sample_doc 0)
      [Intersection work_entries]) = ''work''
   \<and> latestActive (spy_run (useScrollSpy_mount SECTION_IDS True sample_doc 0)
      [Intersection work_entries]) = ''home''
   \<and> visible_of work_entries = [\<lparr>v_id = ''work'', v_ratio = 1/2, v_top = 40\<rparr>]
   \<and> observer_callback
        (latestActive (spy_run (useScrollSpy_mount SECTION_IDS True sample_doc 0)
           [Intersection work_entries])) work_entries = Some ''work''"
  by (simp add: spy_run_def mount_sample_observer observer_callback_def visible_of_work
        setActiveId_def)

text \<open>
  Claim C10.  For the empty list of section ids the hook starts with \<open>activeId = "home"\<close>,
  installs neither an observer nor a scroll listener, and keeps \<open>"home"\<close> after every
  sequence of events; \<open>"home"\<close> is then not a member of the (empty) list of ids.
\<close>

theorem empty_list_home:
  "activeId (spy_run (useScrollSpy_mount [] hasIO doc scrollY) evs) = ''home''
   \<and> listener (spy_run (useScrollSpy_mount [] hasIO doc scrollY) evs) = NoListener
   \<and> activeId (spy_run (useScrollSpy_mount [] hasIO doc scrollY) evs) \<notin> set []"
proof -
  have m: "useScrollSpy_mount [] hasIO doc scrollY
      = \<lparr>activeId = ''home'', latestActive = ''home'', listener = NoListener\<rparr>"
    by (simp add: useScrollSpy_mount_def initial_activeId_def)
  then have "spy_run (useScrollSpy_mount [] hasIO doc scrollY) evs
      = \<lparr>activeId = ''home'', latestActive = ''home'', listener = NoListener\<rparr>"
    by (simp add: spy_run_idle)
  then show ?thesis by simp
qed

theorem empty_list_home_witness:
  "activeId (spy_run (useScrollSpy_mount [] True sample_doc 0)
      [Intersection sample_entries, SyncRef, Scroll sample_doc 1500]) = ''home''
   \<and> activeId (spy_run (useScrollSpy_mount [] False sample_doc 0)
      [Scroll sample_doc 1500]) = ''home''"
  using empty_list_home [of True sample_doc 0
      "[Intersection sample_entries, SyncRef, Scroll sample_doc 1500]"]
    empty_list_home [of False sample_doc 0 "[Scroll sample_doc 1500]"]
  by simp

section \<open>Properties of the reveal controller\<close>

lemma reveal_entry_revealed: "revealed s \<subseteq> revealed (reveal_entry e s)"
  by (auto simp: reveal_entry_def)

lemma reveal_entry_observed: "observed (reveal_entry e s) \<subseteq> observed s"
  by (cases "observing s") (auto simp: reveal_entry_def observed_def)

lemma reveal_entry_target:
  "isIntersecting e \<Longrightarrow>
     target e \<in> revealed (reveal_entry e s) \<and> target e \<notin> observed (reveal_entry e s)"
  by (cases "observing s") (auto simp: reveal_entry_def observed_def)

lemma reveal_callback_Cons:
  "reveal_callback (e # es) s = reveal_callback es (reveal_entry e s)"
  by (simp add: reveal_callback_def)

lemma reveal_callback_revealed: "revealed s \<subseteq> revealed (reveal_callback es s)"
proof (induction es arbitrary: s)
  case Nil
  show ?case by (simp add: reveal_callback_def)
next
  case (Cons e es)
  have "revealed s \<subseteq> revealed (reveal_entry e s)" by (rule reveal_entry_revealed)
  also have "\<dots> \<subseteq> revealed (reveal_callback es (reveal_entry e s))" by (rule Cons.IH)
  finally show ?case by (simp only: reveal_callback_Cons)
qed

lemma reveal_callback_observed: "observed (reveal_callback es s) \<subseteq> observed s"
proof (induction es arbitrary: s)
  case Nil
  show ?case by (simp add: reveal_callback_def)
next
  case (Cons e es)
  have "observed (reveal_callback es (reveal_entry e s)) \<subseteq> observed (reveal_entry e s)"
    by (rule Cons.IH)
  also have "\<dots> \<subseteq> observed s" by (rule reveal_entry_observed)
  finally show ?case by (simp only: reveal_callback_Cons)
qed

lemma reveal_callback_target:
  assumes "e \<in> set es" and "isIntersecting e"
  shows "target e \<in> revealed (reveal_callback es s) \<and> target e \<notin> observed (reveal_callback es s)"
  using assms(1)
proof (induction es arbitrary: s)
  case Nil
  then show ?case by simp
next
  case (Cons e' es)
  show ?case
  proof (cases "e = e'")
    case True
    from reveal_entry_target [OF assms(2), of s]
    have "target e \<in> revealed (reveal_entry e s)" "target e \<notin> observed (reveal_entry e s)"
      by simp_all
    with reveal_callback_revealed [of "reveal_entry e s" es]
      reveal_callback_observed [of es "reveal_entry e s"]
    show ?thesis
      unfolding reveal_callback_Cons True [symmetric] by blast
  next
    case False
    with Cons.prems have "e \<in> set es" by simp
    then show ?thesis
      unfolding reveal_callback_Cons by (rule Cons.IH)
  qed
qed

lemma reveal_effect_revealed:
  "revealed s \<subseteq> revealed (useRevealOnScroll_effect rm io els (reveal_cleanup s))"
  by (auto simp: useRevealOnScroll_effect_def reveal_cleanup_def)

lemma reveal_step_revealed: "revealed s \<subseteq> revealed (reveal_step s ev)"
proof (cases ev)
  case (Run rm io els)
  then show ?thesis by (simp add: reveal_effect_revealed)
next
  case (Intersect es)
  then show ?thesis
    by (cases "observing s") (simp_all add: reveal_callback_revealed)
qed

lemma reveal_run_Cons: "reveal_run s (ev # evs) = reveal_run (reveal_step s ev) evs"
  by (simp add: reveal_run_def)

lemma reveal_run_revealed: "revealed s \<subseteq> revealed (reveal_run s evs)"
proof (induction evs arbitrary: s)
  case Nil
  show ?case by (simp add: reveal_run_def)
next
  case (Cons ev evs)
  have "revealed s \<subseteq> revealed (reveal_step s ev)" by (rule reveal_step_revealed)
  also have "\<dots> \<subseteq> revealed (reveal_run (reveal_step s ev) evs)" by (rule Cons.IH)
  finally show ?case by (simp only: reveal_run_Cons)
qed

lemma reveal_transitions_revealed: "x \<in> revealed s \<Longrightarrow> reveal_transitions x s evs = 0"
proof (induction evs arbitrary: s)
  case Nil
  show ?case by simp
next
  case (Cons ev evs)
  from Cons.prems reveal_step_revealed [of s ev] have "x \<in> revealed (reveal_step s ev)"
    by blast
  then have "reveal_transitions x (reveal_step s ev) evs = 0" by (rule Cons.IH)
  with Cons.prems show ?case by simp
qed

lemma reveal_transitions_le_1: "reveal_transitions x s evs \<le> 1"
proof (induction evs arbitrary: s)
  case Nil
  show ?case by simp
next
  case (Cons ev evs)
  show ?case
  proof (cases "x \<in> revealed (reveal_step s ev)")
    case True
    then have "reveal_transitions x (reveal_step s ev) evs = 0"
      by (rule reveal_transitions_revealed)
    then show ?thesis by simp
  next
    case False
    with Cons.IH [of "reveal_step s ev"] show ?thesis by simp
  qed
qed

text \<open>
  Claim C7.  The set of revealed elements only grows along every run of the controller,
  whatever the events (an element that leaves the viewport again stays revealed).  The
  observer callback reveals the target of every intersecting entry and unobserves it at
  once, a delivery never adds a target to the observer, and an element goes from hidden
  to revealed at most once in a run.
\<close>

theorem reveal_monotonic:
  "revealed s \<subseteq> revealed (reveal_run s evs)
   \<and> (observing s \<noteq> None \<longrightarrow>
        (\<forall>e\<in>set entries. isIntersecting e \<longrightarrow>
           target e \<in> revealed (reveal_step s (Intersect entries))
           \<and> target e \<notin> observed (reveal_step s (Intersect entries))))
   \<and> observed (reveal_step s (Intersect entries)) \<subseteq> observed s
   \<and> reveal_transitions x s evs \<le> 1"
proof (intro conjI impI ballI)
  show "revealed s \<subseteq> revealed (reveal_run s evs)" by (rule reveal_run_revealed)
  show "reveal_transitions x s evs \<le> 1" by (rule reveal_transitions_le_1)
  show "observed (reveal_step s (Intersect entries)) \<subseteq> observed s"
    by (cases "observing s") (simp_all add: reveal_callback_observed)
next
  fix e assume "observing s \<noteq> None" "e \<in> set entries" "isIntersecting e"
  then show "target e \<in> revealed (reveal_step s (Intersect entries))"
    and "target e \<notin> observed (reveal_step s (Intersect entries))"
    using reveal_callback_target [of e entries s] by auto
qed

theorem reveal_monotonic_witness:
  "(1::nat) \<in> revealed (reveal_run reveal_start reveal_sample_run)
   \<and> reveal_transitions 1 reveal_start reveal_sample_run = 1
   \<and> (1::nat) \<notin> observed (reveal_step \<lparr>revealed = {}, observing = Some {1, 2, 3}\<rparr>
        (Intersect [\<lparr>target = 1, isIntersecting = True, intersectionRatio = 1/5,
           rect_top = 300\<rparr>]))"
proof -
  have t: "1 \<le> reveal_transitions (1::nat) reveal_start reveal_sample_run"
    by (simp add: reveal_sample_run_def reveal_start_def useRevealOnScroll_effect_def
          reveal_cleanup_def reveal_callback_def reveal_entry_def)
  have r: "(1::nat) \<in> revealed (reveal_run reveal_start (take 2 reveal_sample_run))"
    by (simp add: reveal_sample_run_def reveal_start_def reveal_run_def
          useRevealOnScroll_effect_def reveal_cleanup_def reveal_callback_def reveal_entry_def)
  have sp: "reveal_run reveal_start reveal_sample_run
      = reveal_run (reveal_run reveal_start (take 2 reveal_sample_run)) (drop 2 reveal_sample_run)"
    unfolding reveal_run_def foldl_append [symmetric] by simp
  from reveal_monotonic [of "reveal_run reveal_start (take 2 reveal_sample_run)"
      "drop 2 reveal_sample_run" "[]" 1] r
  have 1: "(1::nat) \<in> revealed (reveal_run reveal_start reveal_sample_run)"
    unfolding sp by blast
  from reveal_monotonic [of reveal_start reveal_sample_run "[]" 1] t
  have 2: "reveal_transitions 1 reveal_start reveal_sample_run = 1"
    by simp
  from reveal_monotonic [of "\<lparr>revealed = {}, observing = Some {1::nat, 2, 3}\<rparr>" "[]"
      "[\<lparr>target = 1, isIntersecting = True, intersectionRatio = 1/5, rect_top = 300\<rparr>]" 1]
  have 3: "(1::nat) \<notin> observed (reveal_step \<lparr>revealed = {}, observing = Some {1, 2, 3}\<rparr>
        (Intersect [\<lparr>target = 1, isIntersecting = True, intersectionRatio = 1/5,
           rect_top = 300\<rparr>]))"
    by (simp del: reveal_step.simps)
  from 1 2 3 show ?thesis by simp
qed

text \<open>
  Claim C8.  When reduced motion is set or \<open>IntersectionObserver\<close> is missing, a run of
  the effect reveals every reveal-marked element it finds, at once, and installs no
  observer, so that no intersection event is involved.
\<close>

theorem reduced_motion_reveals_all:
  assumes "reducedMotion \<or> \<not> hasIO"
  shows "revealed (reveal_step s (Run reducedMotion hasIO elements)) = revealed s \<union> set elements
     \<and> set elements \<subseteq> revealed (reveal_step s (Run reducedMotion hasIO elements))
     \<and> observing (reveal_step s (Run reducedMotion hasIO elements)) = None"
  using assms by (auto simp: useRevealOnScroll_effect_def reveal_cleanup_def)

theorem reduced_motion_reveals_all_witness:
  "revealed (reveal_step reveal_start (Run True True [1, 2, 3])) = {1, 2, 3}
   \<and> revealed (reveal_step reveal_start (Run False False [1, 2, 3])) = {1, 2, 3}
   \<and> observing (reveal_step reveal_start (Run True True [1, 2, 3])) = None"
proof -
  have "True \<or> \<not> True" and "False \<or> \<not> False" by simp_all
  from reduced_motion_reveals_all [OF this(1), of reveal_start "[1, 2, 3]"]
    reduced_motion_reveals_all [OF this(2), of reveal_start "[1, 2, 3]"]
  show ?thesis
    by (simp add: reveal_start_def del: reveal_step.simps)
qed

end
